theory Spec2Isabelle
  imports Complex_Main
begin

section \<open>Branch statistics over tree sequences (msprime/branch\_stats.py)\<close>

text \<open>
  Python floats are idealised as real numbers: every sum and product below is exact.
  Node ids are Python ints; the id \<open>-1\<close> stands for "no node".
\<close>

subsection \<open>Exceptions\<close>

datatype error =
    ZeroDivisionError
  | IndexError
  | KeyError
  | TypeError string

subsection \<open>The single-tree query interface\<close>

text \<open>
  A tree snapshot as the statistics see it. The tree classes themselves are not part of
  branch\_stats.py, so each query the source calls is a field of the snapshot:
  \<open>tr.parent(u)\<close>, the node times, \<open>tr.mrca(a, b)\<close>, \<open>tr.root\<close>,
  \<open>tr.length\<close> (the genomic span), \<open>tr.nodes()\<close>, and the nodes carrying
  the mutations of \<open>tr.mutations()\<close> (one entry per mutation, \<open>mut.node\<close>).
\<close>

record tree =
  parent :: "int \<Rightarrow> int"
  time_of :: "int \<Rightarrow> real"
  mrca :: "int \<Rightarrow> int \<Rightarrow> int"
  root_tr :: int
  length_tr :: real
  nodes :: "int list"
  mutations :: "int list"

text \<open>
  Modelled from the spec: \<open>tr.branch_length(u)\<close> is missing from the sources; the
  spec gives \<open>branch_length(u) = time(parent(u)) - time(u)\<close>.
\<close>

definition branch_length :: "tree \<Rightarrow> int \<Rightarrow> real" where
  "branch_length tr u = time_of tr (parent tr u) - time_of tr u"

subsection \<open>path\_length\<close>

text \<open>
  The inner loop of \<open>path_length\<close>:
  \<^verbatim>\<open>while u != mrca: L += tr.branch_length(u); u = tr.parent(u)\<close>.
  It need not terminate (the parent pointers may never reach \<open>mrca\<close>), so it lives in
  the option monad: \<open>None\<close> is "does not return".
\<close>

partial_function (option) path_length_while :: "tree \<Rightarrow> int \<Rightarrow> int \<Rightarrow> real \<Rightarrow> real option" where
  "path_length_while tr m u L =
     (if u \<noteq> m then path_length_while tr m (parent tr u) (L + branch_length tr u)
      else Some L)"

text \<open>\<open>for u in x,y\<close> runs the loop from \<open>x\<close>, then from \<open>y\<close>, on the same \<open>L\<close>.\<close>

definition path_length :: "tree \<Rightarrow> int \<Rightarrow> int \<Rightarrow> real option" where
  "path_length tr x y =
     (let m = mrca tr x y in
      case path_length_while tr m x 0 of
        None \<Rightarrow> None
      | Some L \<Rightarrow> path_length_while tr m y L)"

subsection \<open>Tree sequences\<close>

text \<open>
  One coalescence record of the diff stream: \<open>(node, children, time)\<close>; one diff
  event: \<open>(length, records_out, records_in)\<close>.
\<close>

type_synonym coal_record = "int \<times> int list \<times> real"
type_synonym diff = "real \<times> coal_record list \<times> coal_record list"

text \<open>
  What the statistics read from a tree sequence \<open>ts\<close>: \<open>ts.num_nodes\<close>,
  \<open>ts.sequence_length\<close> (also \<open>ts.get_sequence_length()\<close>), the snapshots
  yielded by \<open>ts.trees()\<close> and the events yielded by \<open>ts.diffs()\<close>.
  \<open>ts.num_trees\<close> is the number of snapshots.
\<close>

record tree_sequence =
  num_nodes :: nat
  sequence_length :: real
  trees :: "tree list"
  diffs :: "diff list"

definition num_trees :: "tree_sequence \<Rightarrow> nat" where
  "num_trees ts = length (trees ts)"

text \<open>Python's \<open>a / b\<close> on floats raises on a zero divisor.\<close>

definition py_div :: "real \<Rightarrow> real \<Rightarrow> error + real" where
  "py_div a b = (if b = 0 then Inl ZeroDivisionError else Inr (a / b))"

subsection \<open>branch\_length\_diversity\<close>



subsection \<open>branch\_length\_Y\<close>




subsection \<open>branch\_stats\_node\_iter\<close>

text \<open>
  Modelled from the spec: \<open>tr.num_tracked_leaves(node)\<close>, for a snapshot obtained
  with \<open>tracked_leaves=a\<close>, is missing from the sources; the spec gives "the number of
  tracked leaves from each group currently below that node". A leaf is below \<open>node\<close>
  when following the parent pointers from the leaf reaches \<open>node\<close>; a path in a tree
  visits each of its nodes at most once, so \<open>length (nodes tr)\<close> steps are enough.
\<close>

fun descends :: "tree \<Rightarrow> nat \<Rightarrow> int \<Rightarrow> int \<Rightarrow> bool" where
  "descends tr 0 l node = (l = node)"
| "descends tr (Suc n) l node =
     (l = node \<or> (parent tr l \<noteq> - 1 \<and> descends tr n (parent tr l) node))"

definition num_tracked_leaves :: "tree \<Rightarrow> int list \<Rightarrow> int \<Rightarrow> int" where
  "num_tracked_leaves tr a node =
     int (length (filter (\<lambda>l. descends tr (length (nodes tr)) l node) a))"

text \<open>\<open>[ tr.num_tracked_leaves(node) for tr in trs ]\<close>: one count per leaf set.\<close>

definition count_vector :: "tree \<Rightarrow> int list list \<Rightarrow> int \<Rightarrow> int list" where
  "count_vector tr leaf_sets node = map (\<lambda>a. num_tracked_leaves tr a node) leaf_sets"

text \<open>
  \<open>method == 'length'\<close>: the loop over \<open>trs[0].nodes()\<close>. The source compares
  \<open>node is not root\<close>; on node ids this is modelled as inequality of the ids.
\<close>

definition length_nodes_loop ::
  "tree \<Rightarrow> int list list \<Rightarrow> (int list \<Rightarrow> bool) \<Rightarrow> real \<Rightarrow> real" where
  "length_nodes_loop tr leaf_sets condition S =
     foldl (\<lambda>S node.
              if node \<noteq> root_tr tr then
                (if condition (count_vector tr leaf_sets node)
                 then S + branch_length tr node * length_tr tr else S)
              else S)
           S (nodes tr)"

text \<open>
  \<open>method == 'mutations'\<close>: the dictionary \<open>count_nodes\<close> over the non-root nodes
  (equal keys carry equal values), then the loop over the mutations; a mutation on a node
  that is not a key raises \<open>KeyError\<close>.
\<close>

definition count_nodes ::
  "tree \<Rightarrow> int list list \<Rightarrow> (int list \<Rightarrow> bool) \<Rightarrow> (int \<rightharpoonup> bool)" where
  "count_nodes tr leaf_sets condition =
     map_of (map (\<lambda>node. (node, condition (count_vector tr leaf_sets node)))
                 (filter (\<lambda>node. node \<noteq> root_tr tr) (nodes tr)))"

fun mutations_loop :: "(int \<rightharpoonup> bool) \<Rightarrow> int list \<Rightarrow> real \<Rightarrow> error + real" where
  "mutations_loop cn [] S = Inr S"
| "mutations_loop cn (mut_node # muts) S =
     (case cn mut_node of
        None \<Rightarrow> Inl KeyError
      | Some b \<Rightarrow> mutations_loop cn muts (if b then S + 1 else S))"

text \<open>
  One pass of \<open>for k in range(ts.num_trees)\<close>. \<open>trs\<close> holds one snapshot per leaf
  set, so \<open>trs[0]\<close> raises \<open>IndexError\<close> when there is no leaf set.
\<close>

definition node_iter_tree ::
  "tree \<Rightarrow> int list list \<Rightarrow> (int list \<Rightarrow> bool) \<Rightarrow> string \<Rightarrow> real \<Rightarrow> error + real" where
  "node_iter_tree tr leaf_sets condition method S =
     (if leaf_sets = [] then Inl IndexError
      else if method = ''length'' then Inr (length_nodes_loop tr leaf_sets condition S)
      else if method = ''mutations'' then
        mutations_loop (count_nodes tr leaf_sets condition) (mutations tr) S
      else Inl (TypeError (''Unknown method '' @ method)))"

fun node_iter_loop ::
  "tree list \<Rightarrow> int list list \<Rightarrow> (int list \<Rightarrow> bool) \<Rightarrow> string \<Rightarrow> real \<Rightarrow> error + real" where
  "node_iter_loop [] leaf_sets condition method S = Inr S"
| "node_iter_loop (tr # trs) leaf_sets condition method S =
     (case node_iter_tree tr leaf_sets condition method S of
        Inl e \<Rightarrow> Inl e
      | Inr S' \<Rightarrow> node_iter_loop trs leaf_sets condition method S')"

definition branch_stats_node_iter ::
  "tree_sequence \<Rightarrow> int list list \<Rightarrow> (int list \<Rightarrow> bool) \<Rightarrow> string \<Rightarrow> error + real" where
  "branch_stats_node_iter ts leaf_sets condition method =
     (case node_iter_loop (trees ts) leaf_sets condition method 0 of
        Inl e \<Rightarrow> Inl e
      | Inr S \<Rightarrow> py_div S (sequence_length ts))"

subsection \<open>branch\_stats: the incremental engine\<close>

text \<open>
  Python list indexing: an index \<open>i\<close> is accepted when \<open>-len \<le> i < len\<close>, a
  negative index counting from the end; any other index raises \<open>IndexError\<close>.
\<close>

definition py_index_ok :: "nat \<Rightarrow> int \<Rightarrow> bool" where
  "py_index_ok n i = (- int n \<le> i \<and> i < int n)"

definition py_pos :: "nat \<Rightarrow> int \<Rightarrow> nat" where
  "py_pos n i = (if i < 0 then nat (int n + i) else nat i)"

definition py_get :: "'a list \<Rightarrow> int \<Rightarrow> 'a" where
  "py_get xs i = xs ! py_pos (length xs) i"

definition py_set :: "'a list \<Rightarrow> int \<Rightarrow> 'a \<Rightarrow> 'a list" where
  "py_set xs i v = xs[py_pos (length xs) i := v]"

text \<open>
  The working state of \<open>branch_stats\<close>: the count vectors \<open>X\<close>, the parent array
  \<open>pi\<close>, \<open>node_time\<close>, and the running totals \<open>L\<close> and \<open>S\<close>.
\<close>

record state =
  st_X :: "int list list"
  st_pi :: "int list"
  st_node_time :: "real list"
  st_L :: real
  st_S :: real

text \<open>\<open>node_time[pi[u]] - node_time[u]\<close>, the branch above \<open>u\<close> as the engine sees it.\<close>

definition branch_above :: "state \<Rightarrow> int \<Rightarrow> real" where
  "branch_above s u =
     py_get (st_node_time s) (py_get (st_pi s) u) - py_get (st_node_time s) u"

text \<open>Edges out: the body of \<open>for child in children\<close>.\<close>

definition out_child :: "(int list \<Rightarrow> bool) \<Rightarrow> state \<Rightarrow> int \<Rightarrow> state" where
  "out_child condition s child =
     s\<lparr>st_L := (if condition (py_get (st_X s) child)
                then st_L s - branch_above s child else st_L s),
       st_pi := py_set (st_pi s) child (- 1)\<rparr>"

text \<open>
  The adjustment of \<open>L\<close> inside both propagation loops, written once:
  \<^verbatim>\<open>if next_u != -1:
      if old_f and not new_f: L -= (node_time[pi[u]] - node_time[u])
      if new_f and not old_f: L += (node_time[pi[u]] - node_time[u])\<close>
\<close>

definition flip_L :: "state \<Rightarrow> int \<Rightarrow> int \<Rightarrow> bool \<Rightarrow> bool \<Rightarrow> real" where
  "flip_L s u next_u old_f new_f =
     (if next_u \<noteq> - 1 then
        (let L1 = (if old_f \<and> \<not> new_f then st_L s - branch_above s u else st_L s)
         in if new_f \<and> \<not> old_f then L1 + branch_above s u else L1)
      else st_L s)"

text \<open>
  Edges out: \<open>while u != -1\<close>, subtracting \<open>X[node]\<close> from every ancestor. The
  loop follows the parent array and need not terminate.
\<close>

partial_function (option) out_while ::
  "(int list \<Rightarrow> bool) \<Rightarrow> nat \<Rightarrow> int \<Rightarrow> state \<Rightarrow> int \<Rightarrow> int \<Rightarrow> state option" where
  "out_while condition num_leaf_sets node s u next_u =
     (if u \<noteq> - 1 then
        (let old_f = condition (py_get (st_X s) u);
             X' = py_set (st_X s) u
                    (map (\<lambda>k. py_get (st_X s) u ! k - py_get (st_X s) node ! k)
                         [0..<num_leaf_sets]);
             new_f = condition (py_get X' u);
             L' = flip_L s u next_u old_f new_f
         in out_while condition num_leaf_sets node (s\<lparr>st_X := X', st_L := L'\<rparr>)
              next_u (py_get (st_pi s) next_u))
      else Some s)"

text \<open>
  One record of \<open>records_out\<close>. Its children and its node are used as indices before
  anything else of the record runs, so an id out of range raises here; the entries of
  \<open>pi\<close> are \<open>-1\<close> or ids that were indices before.
\<close>

definition record_out ::
  "(int list \<Rightarrow> bool) \<Rightarrow> nat \<Rightarrow> state \<Rightarrow> coal_record \<Rightarrow> (error + state) option" where
  "record_out condition num_leaf_sets s r =
     (case r of (node, children, time) \<Rightarrow>
        if \<not> (list_all (py_index_ok (length (st_pi s))) children
               \<and> py_index_ok (length (st_pi s)) node)
        then Some (Inl IndexError)
        else
          (let s1 = foldl (out_child condition) s children;
               s2 = (if py_get (st_pi s1) node \<noteq> - 1 \<and> condition (py_get (st_X s1) node)
                     then s1\<lparr>st_L := st_L s1 - branch_above s1 node\<rparr> else s1);
               u = py_get (st_pi s2) node
           in case (if u \<noteq> - 1
                    then out_while condition num_leaf_sets node s2 u (py_get (st_pi s2) u)
                    else Some s2) of
                None \<Rightarrow> None
              | Some s3 \<Rightarrow>
                  Some (Inr (s3\<lparr>st_X := py_set (st_X s3) node
                                          (map (\<lambda>k. 0) [0..<num_leaf_sets])\<rparr>))))"

text \<open>Edges in: the body of \<open>for child in children\<close>, on the state and \<open>dx\<close>.\<close>

definition in_child ::
  "(int list \<Rightarrow> bool) \<Rightarrow> nat \<Rightarrow> int \<Rightarrow> state \<times> int list \<Rightarrow> int \<Rightarrow> state \<times> int list" where
  "in_child condition num_leaf_sets node sd child =
     (case sd of (s, dx) \<Rightarrow>
        (s\<lparr>st_L := (if condition (py_get (st_X s) child)
                    then st_L s + (py_get (st_node_time s) node - py_get (st_node_time s) child)
                    else st_L s),
           st_pi := py_set (st_pi s) child node\<rparr>,
         map (\<lambda>k. dx ! k + py_get (st_X s) child ! k) [0..<num_leaf_sets]))"

text \<open>Edges in: \<open>while u != -1\<close>, adding \<open>dx\<close> to every ancestor.\<close>

partial_function (option) in_while ::
  "(int list \<Rightarrow> bool) \<Rightarrow> nat \<Rightarrow> int list \<Rightarrow> state \<Rightarrow> int \<Rightarrow> int \<Rightarrow> state option" where
  "in_while condition num_leaf_sets dx s u next_u =
     (if u \<noteq> - 1 then
        (let old_f = condition (py_get (st_X s) u);
             X' = py_set (st_X s) u
                    (map (\<lambda>k. py_get (st_X s) u ! k + dx ! k) [0..<num_leaf_sets]);
             new_f = condition (py_get X' u);
             L' = flip_L s u next_u old_f new_f
         in in_while condition num_leaf_sets dx (s\<lparr>st_X := X', st_L := L'\<rparr>)
              next_u (py_get (st_pi s) next_u))
      else Some s)"

text \<open>One record of \<open>records_in\<close>; the node is an index first, then the children.\<close>

definition record_in ::
  "(int list \<Rightarrow> bool) \<Rightarrow> nat \<Rightarrow> state \<Rightarrow> coal_record \<Rightarrow> (error + state) option" where
  "record_in condition num_leaf_sets s r =
     (case r of (node, children, time) \<Rightarrow>
        if \<not> (py_index_ok (length (st_pi s)) node
               \<and> list_all (py_index_ok (length (st_pi s))) children)
        then Some (Inl IndexError)
        else
          (let dx0 = map (\<lambda>a. 0) [0..<num_leaf_sets];
               s0 = s\<lparr>st_node_time := py_set (st_node_time s) node time\<rparr>;
               (s1, dx) = foldl (in_child condition num_leaf_sets node) (s0, dx0) children;
               s2 = s1\<lparr>st_X := py_set (st_X s1) node (map (\<lambda>k. dx ! k) [0..<num_leaf_sets])\<rparr>;
               s3 = (if py_get (st_pi s2) node \<noteq> - 1 \<and> condition (py_get (st_X s2) node)
                     then s2\<lparr>st_L := st_L s2 + branch_above s2 node\<rparr> else s2);
               u = py_get (st_pi s3) node
           in case (if u \<noteq> - 1
                    then in_while condition num_leaf_sets dx s3 u (py_get (st_pi s3) u)
                    else Some s3) of
                None \<Rightarrow> None
              | Some s4 \<Rightarrow> Some (Inr s4)))"

text \<open>A Python \<open>for\<close> loop whose body may raise or fail to return.\<close>

fun for_each ::
  "('s \<Rightarrow> 'a \<Rightarrow> (error + 's) option) \<Rightarrow> 'a list \<Rightarrow> 's \<Rightarrow> (error + 's) option" where
  "for_each body [] s = Some (Inr s)"
| "for_each body (x # xs) s =
     (case body s x of
        None \<Rightarrow> None
      | Some (Inl e) \<Rightarrow> Some (Inl e)
      | Some (Inr s') \<Rightarrow> for_each body xs s')"

text \<open>One diff event: all records out, then all records in, then \<open>S += L * length\<close> (\<open>len\<close> below).\<close>

definition diff_event ::
  "(int list \<Rightarrow> bool) \<Rightarrow> nat \<Rightarrow> state \<Rightarrow> diff \<Rightarrow> (error + state) option" where
  "diff_event condition num_leaf_sets s d =
     (case d of (len, records_out, records_in) \<Rightarrow>
        (case for_each (record_out condition num_leaf_sets) records_out s of
           None \<Rightarrow> None
         | Some (Inl e) \<Rightarrow> Some (Inl e)
         | Some (Inr s1) \<Rightarrow>
             (case for_each (record_in condition num_leaf_sets) records_in s1 of
                None \<Rightarrow> None
              | Some (Inl e) \<Rightarrow> Some (Inl e)
              | Some (Inr s2) \<Rightarrow> Some (Inr (s2\<lparr>st_S := st_S s2 + st_L s2 * len\<rparr>)))))"

text \<open>The state built by the initialisation of \<open>branch_stats\<close>.\<close>

definition init_state :: "nat \<Rightarrow> int list list \<Rightarrow> state" where
  "init_state N leaf_sets =
     \<lparr>st_X = map (\<lambda>u. map (\<lambda>a. if int u \<in> set a then 1 else 0) leaf_sets) [0..<N],
      st_pi = replicate N (- 1),
      st_node_time = replicate N 0,
      st_L = 0,
      st_S = 0\<rparr>"

text \<open>\<open>branch_stats\<close>; its \<open>method\<close> argument is never read.\<close>

definition branch_stats ::
  "tree_sequence \<Rightarrow> int list list \<Rightarrow> (int list \<Rightarrow> bool) \<Rightarrow> string \<Rightarrow> (error + real) option" where
  "branch_stats ts leaf_sets condition method =
     (let num_leaf_sets = length leaf_sets;
          N = num_nodes ts
      in case for_each (diff_event condition num_leaf_sets) (diffs ts)
                (init_state N leaf_sets) of
           None \<Rightarrow> None
         | Some (Inl e) \<Rightarrow> Some (Inl e)
         | Some (Inr s) \<Rightarrow> Some (py_div (st_S s) (sequence_length ts)))"

subsection \<open>Example inputs\<close>

text \<open>
  A resolved tree on the leaves 0, 1, 2: node 3 (time 2) is the parent of 0 and 1, the
  root 4 (time 5) is the parent of 2 and 3; one mutation sits above node 0 and one above
  node 3. The tree sequence \<open>ex_ts\<close> has this single tree, over a genome of length 1.
\<close>

definition ex_tree :: tree where
  "ex_tree =
     \<lparr>parent = (\<lambda>u. if u = 0 \<or> u = 1 then 3 else if u = 2 \<or> u = 3 then 4 else - 1),
      time_of = (\<lambda>u. if u = 3 then 2 else if u = 4 then 5 else 0),
      mrca = (\<lambda>a b. if a = b then a
                     else if a \<in> {0, 1, 3} \<and> b \<in> {0, 1, 3} then 3 else 4),
      root_tr = 4, length_tr = 1, nodes = [4, 2, 3, 0, 1], mutations = [0, 3]\<rparr>"

definition ex_ts :: tree_sequence where
  "ex_ts =
     \<lparr>num_nodes = 5, sequence_length = 1, trees = [ex_tree],
      diffs = [(1, [], [(3, [0, 1], 2), (4, [2, 3], 5)])]\<rparr>"



text \<open>The tree of \<open>ex_ts\<close> stretched over a genome of length 2.\<close>

definition wide_ts :: tree_sequence where
  "wide_ts =
     \<lparr>num_nodes = 5, sequence_length = 2, trees = [ex_tree\<lparr>length_tr := 2\<rparr>],
      diffs = [(2, [], [(3, [0, 1], 2), (4, [2, 3], 5)])]\<rparr>"

text \<open>A tree sequence without any tree.\<close>

definition empty_ts :: tree_sequence where
  "empty_ts = \<lparr>num_nodes = 0, sequence_length = 1, trees = [], diffs = []\<rparr>"

subsection \<open>Reference quantities\<close>

text \<open>
  The number of mutations of a tree that sit on nodes whose count vector satisfies the
  predicate.
\<close>

definition counted_mutations :: "tree \<Rightarrow> int list list \<Rightarrow> (int list \<Rightarrow> bool) \<Rightarrow> nat" where
  "counted_mutations tr leaf_sets condition =
     length (filter (\<lambda>node. condition (count_vector tr leaf_sets node)) (mutations tr))"

subsection \<open>Ancestor chains and frames\<close>

text \<open>
  The ancestor chain of a node in a parent array: the node itself and every node reached
  from it by following parent entries other than \<open>-1\<close>.
\<close>

inductive_set ancestor_chain :: "int list \<Rightarrow> int \<Rightarrow> int set"
  for pi_arr :: "int list" and node :: int where
  chain_start: "node \<in> ancestor_chain pi_arr node"
| chain_up: "u \<in> ancestor_chain pi_arr node \<Longrightarrow> py_get pi_arr u \<noteq> - 1 \<Longrightarrow>
             py_get pi_arr u \<in> ancestor_chain pi_arr node"

text \<open>The count vectors of \<open>s'\<close> are those of \<open>s\<close> at every position outside \<open>C\<close>.\<close>

definition unchanged_outside :: "int set \<Rightarrow> state \<Rightarrow> state \<Rightarrow> bool" where
  "unchanged_outside C s s' =
     (length (st_X s') = length (st_X s)
      \<and> (\<forall>j. j \<notin> py_pos (length (st_X s)) ` C \<longrightarrow> st_X s' ! j = st_X s ! j))"



text \<open>
  The state of the engine after the single diff event of \<open>ex_ts\<close>, for the leaf sets
  \<open>[[0, 1], [2]]\<close> and the predicate \<open>x = [1, 0]\<close>.
\<close>

definition ex_state :: state where
  "ex_state =
     \<lparr>st_X = [[1, 0], [1, 0], [0, 1], [2, 0], [2, 1]],
      st_pi = [3, 3, 4, 4, - 1],
      st_node_time = [0, 0, 0, 2, 5],
      st_L = 4, st_S = 4\<rparr>"

text \<open>
  A tree sequence with a sample that is not at time 0: the leaves 0 (time 0) and 1
  (time 1) under the root 2 (time 2), one tree over a genome of length 1. The diff stream
  carries the time of the parent only.
\<close>

definition ancient_tree :: tree where
  "ancient_tree =
     \<lparr>parent = (\<lambda>u. if u = 0 \<or> u = 1 then 2 else - 1),
      time_of = (\<lambda>u. if u = 1 then 1 else if u = 2 then 2 else 0),
      mrca = (\<lambda>a b. if a = b then a else 2),
      root_tr = 2, length_tr = 1, nodes = [2, 0, 1], mutations = []\<rparr>"

definition ancient_ts :: tree_sequence where
  "ancient_ts =
     \<lparr>num_nodes = 3, sequence_length = 1, trees = [ancient_tree],
      diffs = [(1, [], [(2, [0, 1], 2)])]\<rparr>"

text \<open>The state of the engine after the single diff event of \<open>ancient_ts\<close>.\<close>

definition ancient_state :: state where
  "ancient_state =
     \<lparr>st_X = [[0], [1], [1]], st_pi = [2, 2, - 1], st_node_time = [0, 0, 2],
      st_L = 2, st_S = 2\<rparr>"

subsection \<open>What the running total stands for\<close>

text \<open>The node ids of a state: the indices of its arrays.\<close>

definition node_ids :: "state \<Rightarrow> int set" where
  "node_ids s = {0..<int (length (st_pi s))}"

text \<open>
  The branch above \<open>u\<close> when \<open>u\<close> has a parent, its count vector satisfies the
  predicate and \<open>u\<close> is not in the set \<open>P\<close> of nodes whose record is out; 0 otherwise.
\<close>

definition counted_weight :: "(int list \<Rightarrow> bool) \<Rightarrow> state \<Rightarrow> int set \<Rightarrow> int \<Rightarrow> real" where
  "counted_weight condition s P u =
     (if u \<notin> P \<and> py_get (st_pi s) u \<noteq> - 1 \<and> condition (py_get (st_X s) u)
      then branch_above s u else 0)"

definition counted_branches :: "(int list \<Rightarrow> bool) \<Rightarrow> state \<Rightarrow> int set \<Rightarrow> real" where
  "counted_branches condition s P = (\<Sum>u \<in> node_ids s. counted_weight condition s P u)"

definition shaped :: "state \<Rightarrow> bool" where
  "shaped s =
     (length (st_X s) = length (st_pi s) \<and> length (st_node_time s) = length (st_pi s)
      \<and> (\<forall>u \<in> node_ids s. py_get (st_pi s) u = - 1 \<or> py_get (st_pi s) u \<in> node_ids s))"

definition L_inv :: "(int list \<Rightarrow> bool) \<Rightarrow> state \<Rightarrow> int set \<Rightarrow> bool" where
  "L_inv condition s P =
     (shaped s \<and> P \<subseteq> node_ids s \<and> (\<forall>u \<in> node_ids s. py_get (st_pi s) u \<notin> P)
      \<and> st_L s = counted_branches condition s P)"


definition loop_post :: "(int list \<Rightarrow> bool) \<Rightarrow> int set \<Rightarrow> state \<Rightarrow> state \<Rightarrow> bool" where
  "loop_post condition P s s' =
     (L_inv condition s' P \<and> st_pi s' = st_pi s \<and> st_node_time s' = st_node_time s
      \<and> st_S s' = st_S s)"

text \<open>
  A record may go out when it is in effect: its node has no record out yet, its children
  are exactly the nodes whose parent is the node, and none of them has its record out.
\<close>

definition out_ok :: "state \<Rightarrow> int set \<Rightarrow> coal_record \<Rightarrow> bool" where
  "out_ok s P r =
     (case r of (node, children, time) \<Rightarrow>
        node \<in> node_ids s \<and> node \<notin> P \<and> distinct children
        \<and> (\<forall>c \<in> set children. c \<in> node_ids s \<and> c \<notin> P \<and> py_get (st_pi s) c = node)
        \<and> (\<forall>u \<in> node_ids s. py_get (st_pi s) u = node \<longrightarrow> u \<in> set children))"

text \<open>
  A record may come in when its node has no child, the node is detached unless its own
  record went out, and its children are distinct roots whose records are in effect.
\<close>

definition in_ok :: "state \<Rightarrow> int set \<Rightarrow> coal_record \<Rightarrow> bool" where
  "in_ok s P r =
     (case r of (node, children, time) \<Rightarrow>
        node \<in> node_ids s \<and> (py_get (st_pi s) node \<noteq> - 1 \<longrightarrow> node \<in> P)
        \<and> (\<forall>u \<in> node_ids s. py_get (st_pi s) u \<noteq> node) \<and> distinct children
        \<and> (\<forall>c \<in> set children. c \<in> node_ids s \<and> c \<notin> P \<and> py_get (st_pi s) c = - 1
                                \<and> c \<noteq> node))"

fun outs_ok ::
  "(int list \<Rightarrow> bool) \<Rightarrow> nat \<Rightarrow> state \<Rightarrow> int set \<Rightarrow> coal_record list \<Rightarrow> bool" where
  "outs_ok condition K s P [] = True"
| "outs_ok condition K s P (r # rs) =
     (out_ok s P r \<and>
      (case record_out condition K s r of
         Some (Inr s') \<Rightarrow> outs_ok condition K s' (insert (fst r) P) rs
       | _ \<Rightarrow> True))"

fun ins_ok ::
  "(int list \<Rightarrow> bool) \<Rightarrow> nat \<Rightarrow> state \<Rightarrow> int set \<Rightarrow> coal_record list \<Rightarrow> bool" where
  "ins_ok condition K s P [] = (\<forall>u \<in> P. py_get (st_pi s) u = - 1)"
| "ins_ok condition K s P (r # rs) =
     (in_ok s P r \<and>
      (case record_in condition K s r of
         Some (Inr s') \<Rightarrow> ins_ok condition K s' (P - {fst r}) rs
       | _ \<Rightarrow> True))"

definition event_ok :: "(int list \<Rightarrow> bool) \<Rightarrow> nat \<Rightarrow> state \<Rightarrow> diff \<Rightarrow> bool" where
  "event_ok condition K s d =
     (case d of (len, records_out, records_in) \<Rightarrow>
        outs_ok condition K s {} records_out \<and>
        (case for_each (record_out condition K) records_out s of
           Some (Inr s1) \<Rightarrow> ins_ok condition K s1 (fst ` set records_out) records_in
         | _ \<Rightarrow> True))"

fun stream_ok :: "(int list \<Rightarrow> bool) \<Rightarrow> nat \<Rightarrow> state \<Rightarrow> diff list \<Rightarrow> bool" where
  "stream_ok condition K s [] = True"
| "stream_ok condition K s (d # ds) =
     (event_ok condition K s d \<and>
      (case diff_event condition K s d of
         Some (Inr s') \<Rightarrow> stream_ok condition K s' ds
       | _ \<Rightarrow> True))"

text \<open>The part of \<open>L_inv\<close> that holds while the children of a record come in.\<close>

definition L_sum :: "(int list \<Rightarrow> bool) \<Rightarrow> state \<Rightarrow> int set \<Rightarrow> bool" where
  "L_sum condition s P =
     (shaped s \<and> P \<subseteq> node_ids s \<and> st_L s = counted_branches condition s P)"

text \<open>
  The diff stream of \<open>ex_ts\<close> over two trees: in the second tree leaf 1 has moved from
  node 3 to the root.
\<close>

definition ex_diffs2 :: "diff list" where
  "ex_diffs2 =
     [(1, [], [(3, [0, 1], 2), (4, [2, 3], 5)]),
      (1, [(4, [2, 3], 5), (3, [0, 1], 2)], [(3, [0], 2), (4, [1, 2, 3], 5)])]"

section \<open>Properties\<close>

subsection \<open>The upward walk of path\_length\<close>

lemma path_length_while_stop: "path_length_while tr m m L = Some L"
  by (subst path_length_while.simps) simp









subsection \<open>path\_length\<close>



text \<open>
  C10: when \<open>tr.mrca(x, x)\<close> is \<open>x\<close> itself, neither walk executes its body and
  \<open>path_length(tr, x, x)\<close> returns 0.
\<close>

theorem path_length_same_node:
  "mrca tr x x = x \<Longrightarrow> path_length tr x x = Some 0"
  by (simp add: path_length_def path_length_while_stop)

theorem path_length_same_node_witness:
  "mrca ex_tree 0 0 = 0 \<and> path_length ex_tree 0 0 = Some 0"
proof -
  have a: "mrca ex_tree 0 0 = 0" by (simp add: ex_tree_def)
  show ?thesis using a path_length_same_node [OF a] by simp
qed


subsection \<open>branch\_length\_diversity\<close>








subsection \<open>branch\_length\_Y on a star\<close>




subsection \<open>branch\_stats\_node\_iter: the mutations method\<close>

lemma map_of_tabulate:
  "map_of (map (\<lambda>k. (k, f k)) xs) k = (if k \<in> set xs then Some (f k) else None)"
  by (induction xs) auto

lemma count_nodes_Some:
  "node \<in> set (nodes tr) \<Longrightarrow> node \<noteq> root_tr tr \<Longrightarrow>
   count_nodes tr leaf_sets condition node = Some (condition (count_vector tr leaf_sets node))"
  by (simp add: count_nodes_def map_of_tabulate)

lemma mutations_loop_count:
  "\<forall>m \<in> set muts. cn m = Some (g m) \<Longrightarrow>
   mutations_loop cn muts S = Inr (S + real (length (filter g muts)))"
  by (induction muts arbitrary: S) auto

lemma node_iter_loop_mutations:
  assumes "leaf_sets \<noteq> []"
  shows "\<forall>tr \<in> set trs. \<forall>m \<in> set (mutations tr). m \<in> set (nodes tr) \<and> m \<noteq> root_tr tr \<Longrightarrow>
   node_iter_loop trs leaf_sets condition ''mutations'' S =
     Inr (S + real (\<Sum>tr\<leftarrow>trs. counted_mutations tr leaf_sets condition))"
proof (induction trs arbitrary: S)
  case Nil
  then show ?case by simp
next
  case (Cons tr trs)
  have "\<forall>m \<in> set (mutations tr). count_nodes tr leaf_sets condition m
          = Some (condition (count_vector tr leaf_sets m))"
    using Cons.prems by (simp add: count_nodes_Some)
  then have "node_iter_tree tr leaf_sets condition ''mutations'' S =
        Inr (S + real (counted_mutations tr leaf_sets condition))"
    using assms by (simp add: node_iter_tree_def counted_mutations_def mutations_loop_count)
  moreover have "node_iter_loop trs leaf_sets condition ''mutations''
                   (S + real (counted_mutations tr leaf_sets condition)) =
                 Inr (S + real (counted_mutations tr leaf_sets condition)
                      + real (\<Sum>tr\<leftarrow>trs. counted_mutations tr leaf_sets condition))"
    using Cons.prems by (intro Cons.IH) simp
  ultimately show ?case by (simp add: add.assoc)
qed

lemma wide_counted:
  "counted_mutations (ex_tree\<lparr>length_tr := 2\<rparr>) [[0, 1], [2]] (\<lambda>x. x = [1, 0]) = 1"
  by (simp add: counted_mutations_def count_vector_def num_tracked_leaves_def ex_tree_def
      eval_nat_numeral)

text \<open>
  C4 fails as stated: over a genome of length 2 with one counted mutation the mutations
  method returns 1/2, not the total 1: the final \<open>S /= ts.get_sequence_length()\<close>
  runs for both methods.
\<close>

theorem node_iter_mutations_counterexample:
  "trees wide_ts = [ex_tree\<lparr>length_tr := 2\<rparr>]
   \<and> counted_mutations (ex_tree\<lparr>length_tr := 2\<rparr>) [[0, 1], [2]] (\<lambda>x. x = [1, 0]) = 1
   \<and> branch_stats_node_iter wide_ts [[0, 1], [2]] (\<lambda>x. x = [1, 0]) ''mutations'' = Inr (1 / 2)"
proof -
  have "trees wide_ts = [ex_tree\<lparr>length_tr := 2\<rparr>]"
    by (simp add: wide_ts_def)
  moreover note wide_counted
  moreover have "branch_stats_node_iter wide_ts [[0, 1], [2]] (\<lambda>x. x = [1, 0]) ''mutations''
                   = Inr (1 / 2)"
    by (simp add: wide_ts_def branch_stats_node_iter_def node_iter_tree_def
        count_nodes_def count_vector_def num_tracked_leaves_def ex_tree_def py_div_def
        eval_nat_numeral)
  ultimately show ?thesis by simp
qed

text \<open>
  C4, amended: with at least one leaf set, every mutation on a non-root node of its tree
  and a non-zero sequence length, the mutations method returns the number of mutations on
  nodes whose count vector satisfies the predicate, summed over the trees with no
  per-tree span weight, divided by the sequence length.
\<close>

theorem node_iter_mutations_total:
  assumes "leaf_sets \<noteq> []" and "sequence_length ts \<noteq> 0"
    and "\<forall>tr \<in> set (trees ts). \<forall>m \<in> set (mutations tr). m \<in> set (nodes tr) \<and> m \<noteq> root_tr tr"
  shows "branch_stats_node_iter ts leaf_sets condition ''mutations'' =
           Inr (real (\<Sum>tr\<leftarrow>trees ts. counted_mutations tr leaf_sets condition)
                / sequence_length ts)"
  using node_iter_loop_mutations [OF assms(1,3), of condition 0] assms(2)
  by (simp add: branch_stats_node_iter_def py_div_def)

theorem node_iter_mutations_total_witness:
  "branch_stats_node_iter wide_ts [[0, 1], [2]] (\<lambda>x. x = [1, 0]) ''mutations'' =
     Inr (real (\<Sum>tr\<leftarrow>trees wide_ts. counted_mutations tr [[0, 1], [2]] (\<lambda>x. x = [1, 0]))
          / sequence_length wide_ts)"
proof -
  have a: "[[0, 1], [2]] \<noteq> ([] :: int list list)" by simp
  have b: "sequence_length wide_ts \<noteq> 0" by (simp add: wide_ts_def)
  have c: "\<forall>tr \<in> set (trees wide_ts). \<forall>m \<in> set (mutations tr).
             m \<in> set (nodes tr) \<and> m \<noteq> root_tr tr"
    by (simp add: wide_ts_def ex_tree_def)
  show ?thesis
    by (rule node_iter_mutations_total [OF a b c])
qed

subsection \<open>branch\_stats\_node\_iter: an unknown method\<close>

lemma node_iter_tree_unknown:
  "leaf_sets \<noteq> [] \<Longrightarrow> method \<noteq> ''length'' \<Longrightarrow> method \<noteq> ''mutations'' \<Longrightarrow>
   node_iter_tree tr leaf_sets condition method S = Inl (TypeError (''Unknown method '' @ method))"
  by (simp add: node_iter_tree_def)

text \<open>
  C5 fails as stated: without any leaf set the first pass raises \<open>IndexError\<close> at
  \<open>trs[0]\<close> before the method is looked at, and on a tree sequence without trees the
  loop body never runs and the call returns 0.
\<close>

theorem node_iter_unknown_method_counterexample:
  "branch_stats_node_iter ex_ts [] (\<lambda>x. True) ''bogus'' = Inl IndexError
   \<and> branch_stats_node_iter empty_ts [[0]] (\<lambda>x. True) ''bogus'' = Inr 0"
  by (simp add: branch_stats_node_iter_def ex_ts_def empty_ts_def node_iter_tree_def py_div_def)

text \<open>
  C5, amended: on a tree sequence with at least one tree and with at least one leaf set,
  every method other than \<open>'length'\<close> and \<open>'mutations'\<close> makes the first pass of the
  loop raise \<open>TypeError("Unknown method " + method)\<close>; nothing is returned.
\<close>

theorem node_iter_unknown_method:
  assumes "0 < num_trees ts" and "leaf_sets \<noteq> []"
    and "method \<noteq> ''length''" and "method \<noteq> ''mutations''"
  shows "branch_stats_node_iter ts leaf_sets condition method =
           Inl (TypeError (''Unknown method '' @ method))"
proof -
  from assms(1) obtain tr trs where "trees ts = tr # trs"
    by (cases "trees ts") (auto simp: num_trees_def)
  then show ?thesis
    by (simp add: branch_stats_node_iter_def node_iter_tree_unknown [OF assms(2,3,4)])
qed

theorem node_iter_unknown_method_witness:
  "branch_stats_node_iter ex_ts [[0, 1], [2]] (\<lambda>x. x = [1, 0]) ''bogus'' =
     Inl (TypeError ''Unknown method bogus'')"
proof -
  have a: "0 < num_trees ex_ts" by (simp add: num_trees_def ex_ts_def)
  have b: "[[0, 1], [2]] \<noteq> ([] :: int list list)" by simp
  have c: "''bogus'' \<noteq> ''length''" "''bogus'' \<noteq> ''mutations''" by simp_all
  show ?thesis
    using node_iter_unknown_method [OF a b c, of "\<lambda>x. x = [1, 0]"] by simp
qed


subsection \<open>branch\_stats: which count vectors an edge record touches\<close>




lemma unchanged_same_X: "st_X s' = st_X s \<Longrightarrow> unchanged_outside C s s'"
  by (simp add: unchanged_outside_def)

















text \<open>
  Both propagation loops return when the parent entries lead from \<open>u\<close> to \<open>-1\<close>.
\<close>

lemma out_while_returns:
  "((\<lambda>v. py_get (st_pi s) v) ^^ m) u = - 1 \<Longrightarrow>
   \<exists>s'. out_while condition K node s u (py_get (st_pi s) u) = Some s'"
proof (induction m arbitrary: s u)
  case 0
  then show ?case by (simp add: out_while.simps)
next
  case (Suc m)
  show ?case
  proof (cases "u = - 1")
    case True
    then show ?thesis by (simp add: out_while.simps)
  next
    case False
    define X' where "X' = py_set (st_X s) u
                     (map (\<lambda>k. py_get (st_X s) u ! k - py_get (st_X s) node ! k) [0..<K])"
    define s1 where "s1 = s\<lparr>st_X := X',
        st_L := flip_L s u (py_get (st_pi s) u) (condition (py_get (st_X s) u))
                  (condition (py_get X' u))\<rparr>"
    have pi1: "st_pi s1 = st_pi s" by (simp add: s1_def)
    from Suc.prems have "((\<lambda>v. py_get (st_pi s1) v) ^^ m) (py_get (st_pi s) u) = - 1"
      by (simp add: funpow_swap1 pi1)
    from Suc.IH [OF this] obtain s' where
      "out_while condition K node s1 (py_get (st_pi s) u)
         (py_get (st_pi s) (py_get (st_pi s) u)) = Some s'"
      by (auto simp: pi1)
    then have "out_while condition K node s u (py_get (st_pi s) u) = Some s'"
      using False by (subst out_while.simps) (simp add: Let_def s1_def X'_def)
    then show ?thesis by blast
  qed
qed

lemma in_while_returns:
  "((\<lambda>v. py_get (st_pi s) v) ^^ m) u = - 1 \<Longrightarrow>
   \<exists>s'. in_while condition K dx s u (py_get (st_pi s) u) = Some s'"
proof (induction m arbitrary: s u)
  case 0
  then show ?case by (simp add: in_while.simps)
next
  case (Suc m)
  show ?case
  proof (cases "u = - 1")
    case True
    then show ?thesis by (simp add: in_while.simps)
  next
    case False
    define X' where
      "X' = py_set (st_X s) u (map (\<lambda>k. py_get (st_X s) u ! k + dx ! k) [0..<K])"
    define s1 where "s1 = s\<lparr>st_X := X',
        st_L := flip_L s u (py_get (st_pi s) u) (condition (py_get (st_X s) u))
                  (condition (py_get X' u))\<rparr>"
    have pi1: "st_pi s1 = st_pi s" by (simp add: s1_def)
    from Suc.prems have "((\<lambda>v. py_get (st_pi s1) v) ^^ m) (py_get (st_pi s) u) = - 1"
      by (simp add: funpow_swap1 pi1)
    from Suc.IH [OF this] obtain s' where
      "in_while condition K dx s1 (py_get (st_pi s) u)
         (py_get (st_pi s) (py_get (st_pi s) u)) = Some s'"
      by (auto simp: pi1)
    then have "in_while condition K dx s u (py_get (st_pi s) u) = Some s'"
      using False by (subst in_while.simps) (simp add: Let_def s1_def X'_def)
    then show ?thesis by blast
  qed
qed




subsection \<open>branch\_stats against branch\_stats\_node\_iter\<close>

text \<open>On \<open>ex_ts\<close>, whose leaves are all at time 0, the two functions agree.\<close>

lemma ex_run:
  "for_each (diff_event (\<lambda>x. x = [1, 0]) (length [[0, 1], [2 :: int]])) (diffs ex_ts)
     (init_state 5 [[0, 1], [2]]) = Some (Inr ex_state)"
  by (simp add: ex_ts_def init_state_def diff_event_def record_in_def in_child_def
      branch_above_def py_get_def py_set_def py_pos_def py_index_ok_def Let_def ex_state_def
      flip_L_def in_while.simps eval_nat_numeral)

lemma ex_agree:
  "branch_stats ex_ts [[0, 1], [2]] (\<lambda>x. x = [1, 0]) ''length'' = Some (Inr 4)
   \<and> branch_stats_node_iter ex_ts [[0, 1], [2]] (\<lambda>x. x = [1, 0]) ''length'' = Inr 4"
proof -
  have "branch_stats ex_ts [[0, 1], [2]] (\<lambda>x. x = [1, 0]) ''length'' = Some (Inr 4)"
    using ex_run by (simp add: branch_stats_def py_div_def ex_ts_def ex_state_def)
  moreover have "branch_stats_node_iter ex_ts [[0, 1], [2]] (\<lambda>x. x = [1, 0]) ''length'' = Inr 4"
    by (simp add: branch_stats_node_iter_def node_iter_tree_def py_div_def ex_ts_def
        length_nodes_loop_def ex_tree_def count_vector_def num_tracked_leaves_def
        branch_length_def eval_nat_numeral)
  ultimately show ?thesis by simp
qed

lemma ancient_run:
  "for_each (diff_event (\<lambda>x. x = [1]) 1) (diffs ancient_ts) (init_state 3 [[1]]) =
     Some (Inr ancient_state)"
  by (simp add: ancient_ts_def ancient_state_def init_state_def diff_event_def record_in_def
      in_child_def branch_above_def py_get_def py_set_def py_pos_def py_index_ok_def Let_def
      eval_nat_numeral)

lemma ancient_naive:
  "length_nodes_loop ancient_tree [[1]] (\<lambda>x. x = [1]) 0 = 1"
  by (simp add: length_nodes_loop_def ancient_tree_def count_vector_def num_tracked_leaves_def
      branch_length_def eval_nat_numeral)

text \<open>
  Without any leaf set \<open>branch_stats\<close> returns a value while
  \<open>branch_stats_node_iter\<close> raises at \<open>trs[0]\<close>.
\<close>

lemma empty_leaf_sets_differ:
  "branch_stats ex_ts [] (\<lambda>x. True) ''length'' = Some (Inr 12)
   \<and> branch_stats_node_iter ex_ts [] (\<lambda>x. True) ''length'' = Inl IndexError"
  by (simp add: branch_stats_def branch_stats_node_iter_def node_iter_tree_def py_div_def
      ex_ts_def init_state_def diff_event_def record_in_def in_child_def
      branch_above_def py_get_def py_set_def py_pos_def py_index_ok_def Let_def
      flip_L_def in_while.simps eval_nat_numeral)

text \<open>
  C1 at a tree sequence with a sample at time 1: for the leaf set \<open>[[1]]\<close> and the
  predicate \<open>x = [1]\<close> the only counted branch is the one above leaf 1, of length
  \<open>2 - 1 = 1\<close>. \<open>branch_stats_node_iter\<close> returns 1; \<open>branch_stats\<close> never learns
  the time of a leaf (\<open>node_time\<close> starts at 0 and is written for parents only) and
  returns 2.
\<close>

theorem branch_stats_ancient_sample:
  "branch_stats ancient_ts [[1]] (\<lambda>x. x = [1]) ''length'' = Some (Inr 2)
   \<and> branch_stats_node_iter ancient_ts [[1]] (\<lambda>x. x = [1]) ''length'' = Inr 1"
proof -
  have "branch_stats ancient_ts [[1]] (\<lambda>x. x = [1]) ''length'' = Some (Inr 2)"
    using ancient_run
    by (simp add: branch_stats_def py_div_def ancient_ts_def ancient_state_def)
  moreover have "branch_stats_node_iter ancient_ts [[1]] (\<lambda>x. x = [1]) ''length'' = Inr 1"
    using ancient_naive
    by (simp add: branch_stats_node_iter_def node_iter_tree_def py_div_def ancient_ts_def)
  ultimately show ?thesis by simp
qed

text \<open>
  C2 at the same tree sequence: after its diff event the count vectors \<open>X\<close> are the
  exact counts of the tree, but \<open>L\<close> is 2 while the branches of the non-root nodes whose
  count vector satisfies the predicate sum to 1 (the tree spans a length of 1, so
  \<open>length_nodes_loop\<close> from 0 is that sum).
\<close>

theorem branch_stats_ancient_invariant:
  "for_each (diff_event (\<lambda>x. x = [1]) 1) (diffs ancient_ts) (init_state 3 [[1]])
     = Some (Inr ancient_state)
   \<and> st_X ancient_state = map (count_vector ancient_tree [[1]]) [0, 1, 2]
   \<and> st_L ancient_state = 2
   \<and> length_nodes_loop ancient_tree [[1]] (\<lambda>x. x = [1]) 0 = 1"
  using ancient_run ancient_naive
  by (simp add: count_vector_def num_tracked_leaves_def ancient_tree_def ancient_state_def
      eval_nat_numeral)


subsection \<open>branch\_stats: the running total on well-formed diff streams\<close>

text \<open>
  On a diff stream whose records go out while in effect (parents before their children)
  and come in on detached children (children before their parents), \<open>L\<close> is, after every
  diff event, the sum of \<open>node_time[pi[u]] - node_time[u]\<close> over the nodes \<open>u\<close> that
  have a parent and whose count vector satisfies the predicate. Within an event the nodes
  whose record is out are left out of the sum.
\<close>

lemma py_pos_id: "u \<in> {0..<int n} \<Longrightarrow> py_pos n u = nat u"
  by (simp add: py_pos_def)

lemma py_get_set:
  "u \<in> {0..<int (length xs)} \<Longrightarrow> w \<in> {0..<int (length xs)} \<Longrightarrow>
   py_get (py_set xs u v) w = (if w = u then v else py_get xs w)"
  by (auto simp: py_get_def py_set_def py_pos_def)

lemma length_py_set: "length (py_set xs u v) = length xs"
  by (simp add: py_set_def)

lemma sum_point:
  assumes "finite A" and "u \<in> A" and "\<forall>v \<in> A. v \<noteq> u \<longrightarrow> g v = f v"
  shows "sum g A = sum f A - f u + (g u :: real)"
proof -
  have "sum g (A - {u}) = sum f (A - {u})"
    using assms(3) by (intro sum.cong) auto
  moreover have "sum g A = g u + sum g (A - {u})" "sum f A = f u + sum f (A - {u})"
    using assms(1,2) by (simp_all add: sum.remove)
  ultimately show ?thesis by simp
qed

lemma sum_same:
  assumes "\<forall>v \<in> A. g v = f v"
  shows "sum g A = (sum f A :: real)"
  using assms by (intro sum.cong) auto

text \<open>One pass of either loop body, seen from the sum.\<close>

lemma loop_body_L_inv:
  assumes inv: "L_inv condition s P" and u: "u \<in> node_ids s" "u \<notin> P"
    and nu: "next_u = py_get (st_pi s) u"
    and s1: "s1 = s\<lparr>st_X := py_set (st_X s) u row,
                st_L := flip_L s u next_u (condition (py_get (st_X s) u)) (condition row)\<rparr>"
  shows "L_inv condition s1 P"
proof -
  from inv have sh: "shaped s" and PV: "P \<subseteq> node_ids s"
    and par: "\<forall>u \<in> node_ids s. py_get (st_pi s) u \<notin> P"
    and L: "st_L s = counted_branches condition s P"
    by (simp_all add: L_inv_def)
  have ids: "node_ids s1 = node_ids s" by (simp add: s1 node_ids_def)
  have uX: "u \<in> {0..<int (length (st_X s))}"
    using u(1) sh by (simp add: node_ids_def shaped_def)
  have ba: "branch_above s1 v = branch_above s v" for v
    by (simp add: s1 branch_above_def)
  have other: "counted_weight condition s1 P v = counted_weight condition s P v"
    if "v \<in> node_ids s" "v \<noteq> u" for v
  proof -
    from that sh have "v \<in> {0..<int (length (st_X s))}"
      by (simp add: node_ids_def shaped_def)
    with that uX have "py_get (st_X s1) v = py_get (st_X s) v"
      by (simp add: s1 py_get_set)
    then show ?thesis by (simp add: counted_weight_def ba) (simp add: s1)
  qed
  have Xu: "py_get (st_X s1) u = row" using uX by (simp add: s1 py_get_set)
  have "counted_branches condition s1 P =
        counted_branches condition s P - counted_weight condition s P u
          + counted_weight condition s1 P u"
    unfolding counted_branches_def ids
    by (rule sum_point) (use u other in \<open>auto simp: node_ids_def\<close>)
  moreover have "st_L s1 = st_L s - counted_weight condition s P u
                   + counted_weight condition s1 P u"
    using u(2) nu Xu by (simp add: counted_weight_def ba flip_L_def) (simp add: s1 flip_L_def nu)
  ultimately have "st_L s1 = counted_branches condition s1 P" using L by simp
  moreover have "shaped s1" using sh by (simp add: shaped_def s1 node_ids_def length_py_set)
  moreover have "\<forall>u \<in> node_ids s1. py_get (st_pi s1) u \<notin> P"
    using par by (simp add: ids) (simp add: s1)
  ultimately show ?thesis using PV by (simp add: L_inv_def ids)
qed


lemma loop_post_refl: "L_inv condition s P \<Longrightarrow> loop_post condition P s s"
  by (simp add: loop_post_def)

lemma loop_post_step:
  assumes "L_inv condition s P" and "st_pi s1 = st_pi s" and "st_node_time s1 = st_node_time s"
    and "st_S s1 = st_S s" and "loop_post condition P s1 s'"
  shows "loop_post condition P s s'"
  using assms by (simp add: loop_post_def)

lemma next_in_ids:
  assumes "L_inv condition s P" and "u \<in> node_ids s"
  shows "py_get (st_pi s) u = - 1 \<or> (py_get (st_pi s) u \<in> node_ids s \<and> py_get (st_pi s) u \<notin> P)"
  using assms by (auto simp: L_inv_def shaped_def)

lemma out_while_L_inv:
  assumes "out_while condition K node s u next_u = Some s'"
  shows "next_u = py_get (st_pi s) u \<longrightarrow> (u = - 1 \<or> (u \<in> node_ids s \<and> u \<notin> P)) \<longrightarrow>
         L_inv condition s P \<longrightarrow> loop_post condition P s s'"
proof (rule out_while.raw_induct
    [where P = "\<lambda>condition K node s u next_u s'.
        next_u = py_get (st_pi s) u \<longrightarrow> (u = - 1 \<or> (u \<in> node_ids s \<and> u \<notin> P)) \<longrightarrow>
         L_inv condition s P \<longrightarrow> loop_post condition P s s'", OF _ assms])
  fix loop :: "(int list \<Rightarrow> bool) \<Rightarrow> nat \<Rightarrow> int \<Rightarrow> state \<Rightarrow> int \<Rightarrow> int \<Rightarrow> state option"
    and condition K node s u next_u s'
  assume IH: "\<And>condition K node s u next_u s'. loop condition K node s u next_u = Some s' \<Longrightarrow>
        next_u = py_get (st_pi s) u \<longrightarrow> (u = - 1 \<or> (u \<in> node_ids s \<and> u \<notin> P)) \<longrightarrow>
         L_inv condition s P \<longrightarrow> loop_post condition P s s'"
    and step: "(if u \<noteq> - 1
      then let old_f = condition (py_get (st_X s) u);
               X' = py_set (st_X s) u
                     (map (\<lambda>k. py_get (st_X s) u ! k - py_get (st_X s) node ! k) [0..<K]);
               new_f = condition (py_get X' u);
               L' = flip_L s u next_u old_f new_f
           in loop condition K node (s\<lparr>st_X := X', st_L := L'\<rparr>) next_u (py_get (st_pi s) next_u)
      else Some s) = Some s'"
  show "next_u = py_get (st_pi s) u \<longrightarrow> (u = - 1 \<or> (u \<in> node_ids s \<and> u \<notin> P)) \<longrightarrow>
         L_inv condition s P \<longrightarrow> loop_post condition P s s'"
  proof (intro impI)
    assume nu: "next_u = py_get (st_pi s) u"
      and uV: "u = - 1 \<or> (u \<in> node_ids s \<and> u \<notin> P)"
      and inv: "L_inv condition s P"
    show "loop_post condition P s s'"
    proof (cases "u = - 1")
      case True
      with step inv show ?thesis by (simp add: loop_post_refl)
    next
      case False
      with uV have u: "u \<in> node_ids s" "u \<notin> P" by simp_all
      define row where
        "row = map (\<lambda>k. py_get (st_X s) u ! k - py_get (st_X s) node ! k) [0..<K]"
      define s1 where "s1 = s\<lparr>st_X := py_set (st_X s) u row,
                st_L := flip_L s u next_u (condition (py_get (st_X s) u)) (condition row)\<rparr>"
      have "u \<in> {0..<int (length (st_X s))}"
        using u(1) inv by (simp add: node_ids_def L_inv_def shaped_def)
      then have Xu: "py_get (py_set (st_X s) u row) u = row" by (simp add: py_get_set)
      from step False
      have run: "loop condition K node s1 next_u (py_get (st_pi s1) next_u) = Some s'"
        by (simp add: Let_def row_def[symmetric] Xu s1_def)
      have inv1: "L_inv condition s1 P"
        by (rule loop_body_L_inv [OF inv u nu s1_def])
      have ids: "node_ids s1 = node_ids s" by (simp add: s1_def node_ids_def)
      have "next_u = - 1 \<or> (next_u \<in> node_ids s1 \<and> next_u \<notin> P)"
        using next_in_ids [OF inv u(1)] nu by (simp add: ids)
      with IH [OF run] inv1 have "loop_post condition P s1 s'" by simp
      then show ?thesis
        by (rule loop_post_step [OF inv, rotated -1]) (simp_all add: s1_def)
    qed
  qed
qed

lemma in_while_L_inv:
  assumes "in_while condition K dx s u next_u = Some s'"
  shows "next_u = py_get (st_pi s) u \<longrightarrow> (u = - 1 \<or> (u \<in> node_ids s \<and> u \<notin> P)) \<longrightarrow>
         L_inv condition s P \<longrightarrow> loop_post condition P s s'"
proof (rule in_while.raw_induct
    [where P = "\<lambda>condition K dx s u next_u s'.
        next_u = py_get (st_pi s) u \<longrightarrow> (u = - 1 \<or> (u \<in> node_ids s \<and> u \<notin> P)) \<longrightarrow>
         L_inv condition s P \<longrightarrow> loop_post condition P s s'", OF _ assms])
  fix loop :: "(int list \<Rightarrow> bool) \<Rightarrow> nat \<Rightarrow> int list \<Rightarrow> state \<Rightarrow> int \<Rightarrow> int \<Rightarrow> state option"
    and condition K dx s u next_u s'
  assume IH: "\<And>condition K dx s u next_u s'. loop condition K dx s u next_u = Some s' \<Longrightarrow>
        next_u = py_get (st_pi s) u \<longrightarrow> (u = - 1 \<or> (u \<in> node_ids s \<and> u \<notin> P)) \<longrightarrow>
         L_inv condition s P \<longrightarrow> loop_post condition P s s'"
    and step: "(if u \<noteq> - 1
      then let old_f = condition (py_get (st_X s) u);
               X' = py_set (st_X s) u (map (\<lambda>k. py_get (st_X s) u ! k + dx ! k) [0..<K]);
               new_f = condition (py_get X' u);
               L' = flip_L s u next_u old_f new_f
           in loop condition K dx (s\<lparr>st_X := X', st_L := L'\<rparr>) next_u (py_get (st_pi s) next_u)
      else Some s) = Some s'"
  show "next_u = py_get (st_pi s) u \<longrightarrow> (u = - 1 \<or> (u \<in> node_ids s \<and> u \<notin> P)) \<longrightarrow>
         L_inv condition s P \<longrightarrow> loop_post condition P s s'"
  proof (intro impI)
    assume nu: "next_u = py_get (st_pi s) u"
      and uV: "u = - 1 \<or> (u \<in> node_ids s \<and> u \<notin> P)"
      and inv: "L_inv condition s P"
    show "loop_post condition P s s'"
    proof (cases "u = - 1")
      case True
      with step inv show ?thesis by (simp add: loop_post_refl)
    next
      case False
      with uV have u: "u \<in> node_ids s" "u \<notin> P" by simp_all
      define row where "row = map (\<lambda>k. py_get (st_X s) u ! k + dx ! k) [0..<K]"
      define s1 where "s1 = s\<lparr>st_X := py_set (st_X s) u row,
                st_L := flip_L s u next_u (condition (py_get (st_X s) u)) (condition row)\<rparr>"
      have "u \<in> {0..<int (length (st_X s))}"
        using u(1) inv by (simp add: node_ids_def L_inv_def shaped_def)
      then have Xu: "py_get (py_set (st_X s) u row) u = row" by (simp add: py_get_set)
      from step False
      have run: "loop condition K dx s1 next_u (py_get (st_pi s1) next_u) = Some s'"
        by (simp add: Let_def row_def[symmetric] Xu s1_def)
      have inv1: "L_inv condition s1 P"
        by (rule loop_body_L_inv [OF inv u nu s1_def])
      have ids: "node_ids s1 = node_ids s" by (simp add: s1_def node_ids_def)
      have "next_u = - 1 \<or> (next_u \<in> node_ids s1 \<and> next_u \<notin> P)"
        using next_in_ids [OF inv u(1)] nu by (simp add: ids)
      with IH [OF run] inv1 have "loop_post condition P s1 s'" by simp
      then show ?thesis
        by (rule loop_post_step [OF inv, rotated -1]) (simp_all add: s1_def)
    qed
  qed
qed


lemma L_inv_I:
  "shaped s \<Longrightarrow> P \<subseteq> node_ids s \<Longrightarrow> \<forall>u \<in> node_ids s. py_get (st_pi s) u \<notin> P \<Longrightarrow>
   st_L s = counted_branches condition s P \<Longrightarrow> L_inv condition s P"
  by (simp add: L_inv_def)

lemma finite_node_ids: "finite (node_ids s)"
  by (simp add: node_ids_def)

lemma out_child_L_inv:
  assumes inv: "L_inv condition s P" and c: "c \<in> node_ids s" "c \<notin> P"
    and att: "py_get (st_pi s) c \<noteq> - 1"
  shows "L_inv condition (out_child condition s c) P"
proof -
  define s1 where "s1 = out_child condition s c"
  from inv have sh: "shaped s" and PV: "P \<subseteq> node_ids s"
    and par: "\<forall>u \<in> node_ids s. py_get (st_pi s) u \<notin> P"
    and L: "st_L s = counted_branches condition s P"
    by (simp_all add: L_inv_def)
  have ids: "node_ids s1 = node_ids s"
    by (simp add: s1_def out_child_def node_ids_def length_py_set)
  have cpi: "c \<in> {0..<int (length (st_pi s))}" using c(1) by (simp add: node_ids_def)
  have pi1: "py_get (st_pi s1) v = (if v = c then - 1 else py_get (st_pi s) v)"
    if "v \<in> node_ids s" for v
    using that cpi by (simp add: s1_def out_child_def py_get_set node_ids_def)
  have other: "counted_weight condition s1 P v = counted_weight condition s P v"
    if "v \<in> node_ids s" "v \<noteq> c" for v
    using that pi1 [OF that(1)]
    by (simp add: counted_weight_def branch_above_def) (simp add: s1_def out_child_def)
  have w1: "counted_weight condition s1 P c = 0"
    using pi1 [OF c(1)] by (simp add: counted_weight_def)
  have "counted_branches condition s1 P =
        counted_branches condition s P - counted_weight condition s P c
          + counted_weight condition s1 P c"
    unfolding counted_branches_def ids
    by (rule sum_point [OF finite_node_ids c(1)]) (use other in auto)
  moreover have "st_L s1 = st_L s - counted_weight condition s P c"
    using c(2) att by (simp add: s1_def out_child_def counted_weight_def)
  ultimately have "st_L s1 = counted_branches condition s1 P" using L w1 by simp
  moreover have "shaped s1"
    using sh pi1 unfolding shaped_def ids
    by (auto simp: s1_def out_child_def length_py_set)
  moreover have "\<forall>u \<in> node_ids s1. py_get (st_pi s1) u \<notin> P"
  proof
    fix u assume "u \<in> node_ids s1"
    then have u: "u \<in> node_ids s" by (simp add: ids)
    have "(- 1 :: int) \<notin> P" using PV by (auto simp: node_ids_def)
    then show "py_get (st_pi s1) u \<notin> P" using pi1 [OF u] par u by simp
  qed
  ultimately show ?thesis using PV unfolding s1_def[symmetric] by (simp add: L_inv_def ids)
qed

lemma out_child_fields:
  "st_X (out_child condition s c) = st_X s"
  "st_node_time (out_child condition s c) = st_node_time s"
  "st_S (out_child condition s c) = st_S s"
  "st_pi (out_child condition s c) = py_set (st_pi s) c (- 1)"
  by (simp_all add: out_child_def)

lemma out_children_L_inv:
  assumes "L_inv condition s P" and "distinct cs" and "node \<noteq> - 1"
    and "\<forall>c \<in> set cs. c \<in> node_ids s \<and> c \<notin> P \<and> py_get (st_pi s) c = node"
  shows "L_inv condition (foldl (out_child condition) s cs) P
       \<and> st_X (foldl (out_child condition) s cs) = st_X s
       \<and> st_node_time (foldl (out_child condition) s cs) = st_node_time s
       \<and> st_S (foldl (out_child condition) s cs) = st_S s
       \<and> node_ids (foldl (out_child condition) s cs) = node_ids s
       \<and> (\<forall>v \<in> node_ids s. py_get (st_pi (foldl (out_child condition) s cs)) v
              = (if v \<in> set cs then - 1 else py_get (st_pi s) v))"
  using assms
proof (induction cs arbitrary: s)
  case Nil
  then show ?case by simp
next
  case (Cons c cs)
  define s1 where "s1 = out_child condition s c"
  from Cons.prems have c: "c \<in> node_ids s" "c \<notin> P" "py_get (st_pi s) c = node" by simp_all
  have inv1: "L_inv condition s1 P"
    unfolding s1_def by (rule out_child_L_inv [OF Cons.prems(1) c(1,2)]) (use c(3) Cons.prems(3) in simp)
  have ids: "node_ids s1 = node_ids s"
    by (simp add: s1_def out_child_def node_ids_def length_py_set)
  have cpi: "c \<in> {0..<int (length (st_pi s))}" using c(1) by (simp add: node_ids_def)
  have pi1: "py_get (st_pi s1) v = (if v = c then - 1 else py_get (st_pi s) v)"
    if "v \<in> node_ids s" for v
    using that cpi by (simp add: s1_def out_child_def py_get_set node_ids_def)
  have rest: "\<forall>c' \<in> set cs. c' \<in> node_ids s1 \<and> c' \<notin> P \<and> py_get (st_pi s1) c' = node"
    using Cons.prems(2,4) pi1 by (auto simp: ids)
  from Cons.prems(2) have d: "distinct cs" by simp
  note IH = Cons.IH [OF inv1 d Cons.prems(3) rest]
  have fold: "foldl (out_child condition) s (c # cs) = foldl (out_child condition) s1 cs"
    by (simp add: s1_def)
  have f1: "st_X s1 = st_X s" "st_node_time s1 = st_node_time s" "st_S s1 = st_S s"
    by (simp_all add: s1_def out_child_fields)
  have "py_get (st_pi (foldl (out_child condition) s1 cs)) v
          = (if v \<in> set (c # cs) then - 1 else py_get (st_pi s) v)"
    if "v \<in> node_ids s" for v
  proof -
    from that have "v \<in> node_ids s1" by (simp add: ids)
    with IH have "py_get (st_pi (foldl (out_child condition) s1 cs)) v
          = (if v \<in> set cs then - 1 else py_get (st_pi s1) v)" by blast
    then show ?thesis using pi1 [OF that] by (cases "v = c") simp_all
  qed
  then show ?case
    unfolding fold using IH by (simp add: f1 ids)
qed


lemma L_inv_shaped: "L_inv condition s P \<Longrightarrow> shaped s"
  by (simp add: L_inv_def)

lemma record_out_L_inv:
  assumes inv: "L_inv condition s P" and ok: "out_ok s P (node, children, time)"
    and run: "record_out condition K s (node, children, time) = Some (Inr s')"
  shows "L_inv condition s' (insert node P)"
proof -
  let ?P = "insert node P"
  from ok have node: "node \<in> node_ids s" "node \<notin> P" and dist: "distinct children"
    and ch: "\<forall>c \<in> set children. c \<in> node_ids s \<and> c \<notin> P \<and> py_get (st_pi s) c = node"
    and all: "\<forall>u \<in> node_ids s. py_get (st_pi s) u = node \<longrightarrow> u \<in> set children"
    by (simp_all add: out_ok_def)
  have nn: "node \<noteq> - 1" using node(1) by (auto simp: node_ids_def)
  define s1 where "s1 = foldl (out_child condition) s children"
  define s2 where "s2 = (if py_get (st_pi s1) node \<noteq> - 1 \<and> condition (py_get (st_X s1) node)
                     then s1\<lparr>st_L := st_L s1 - branch_above s1 node\<rparr> else s1)"
  define u where "u = py_get (st_pi s2) node"
  from out_children_L_inv [OF inv dist nn ch, folded s1_def]
  have inv1: "L_inv condition s1 P" and ids1: "node_ids s1 = node_ids s"
    and pi1: "\<forall>v \<in> node_ids s. py_get (st_pi s1) v
                = (if v \<in> set children then - 1 else py_get (st_pi s) v)"
    by simp_all
  from inv1 have sh1: "shaped s1" and PV: "P \<subseteq> node_ids s1"
    and par1: "\<forall>u \<in> node_ids s1. py_get (st_pi s1) u \<notin> P"
    and L1: "st_L s1 = counted_branches condition s1 P"
    by (simp_all add: L_inv_def)
  have f2: "st_pi s2 = st_pi s1" "st_X s2 = st_X s1" "st_node_time s2 = st_node_time s1"
    by (simp_all add: s2_def)
  have ids2: "node_ids s2 = node_ids s" using ids1 by (simp add: node_ids_def f2)
  have ba2: "branch_above s2 v = branch_above s1 v" for v
    by (simp add: branch_above_def f2)
  have inv2: "L_inv condition s2 ?P"
  proof (rule L_inv_I)
    show "shaped s2" using sh1 by (simp add: shaped_def f2 node_ids_def)
    show "?P \<subseteq> node_ids s2" using PV node(1) by (simp add: ids2 ids1)
    show "\<forall>u \<in> node_ids s2. py_get (st_pi s2) u \<notin> ?P"
    proof
      fix v assume "v \<in> node_ids s2"
      then have v: "v \<in> node_ids s" by (simp add: ids2)
      have "py_get (st_pi s1) v \<noteq> node"
        using pi1 v all nn by (cases "v \<in> set children") auto
      moreover have "py_get (st_pi s1) v \<notin> P" using par1 v by (simp add: ids1)
      ultimately show "py_get (st_pi s2) v \<notin> ?P" by (simp add: f2)
    qed
    have other: "counted_weight condition s2 ?P v = counted_weight condition s1 P v"
      if "v \<noteq> node" for v
      using that by (simp add: counted_weight_def ba2 f2)
    have "counted_branches condition s2 ?P =
          counted_branches condition s1 P - counted_weight condition s1 P node
            + counted_weight condition s2 ?P node"
      unfolding counted_branches_def ids2 ids1
      by (rule sum_point [OF finite_node_ids node(1)]) (use other in auto)
    moreover have "counted_weight condition s2 ?P node = 0"
      by (simp add: counted_weight_def)
    moreover have "st_L s2 = st_L s1 - counted_weight condition s1 P node"
      using node(2) by (simp add: s2_def counted_weight_def)
    ultimately show "st_L s2 = counted_branches condition s2 ?P" using L1 by simp
  qed
  from run obtain s3 where
    loop: "(if u \<noteq> - 1 then out_while condition K node s2 u (py_get (st_pi s2) u) else Some s2)
            = Some s3"
    and s': "s' = s3\<lparr>st_X := py_set (st_X s3) node (map (\<lambda>k. 0) [0..<K])\<rparr>"
    by (auto simp: record_out_def Let_def s1_def s2_def u_def split: if_splits option.splits)
  have post: "loop_post condition ?P s2 s3"
  proof (cases "u = - 1")
    case True
    with loop inv2 show ?thesis by (simp add: loop_post_refl)
  next
    case False
    have "u = - 1 \<or> (u \<in> node_ids s2 \<and> u \<notin> ?P)"
      unfolding u_def by (rule next_in_ids [OF inv2]) (simp add: ids2 node(1))
    moreover from loop False
    have "out_while condition K node s2 u (py_get (st_pi s2) u) = Some s3" by simp
    ultimately show ?thesis
      using out_while_L_inv [of condition K node s2 u "py_get (st_pi s2) u" s3 ?P] inv2
      by simp
  qed
  then have inv3: "L_inv condition s3 ?P" and pi3: "st_pi s3 = st_pi s2"
    and nt3: "st_node_time s3 = st_node_time s2"
    by (simp_all add: loop_post_def)
  have ids3: "node_ids s3 = node_ids s" by (simp add: node_ids_def pi3 ids2[unfolded node_ids_def])
  have ids': "node_ids s' = node_ids s" by (simp add: s' node_ids_def ids3[unfolded node_ids_def])
  from inv3 have sh3: "shaped s3" and L3: "st_L s3 = counted_branches condition s3 ?P"
    and par3: "\<forall>u \<in> node_ids s3. py_get (st_pi s3) u \<notin> ?P" and PV3: "?P \<subseteq> node_ids s3"
    by (simp_all add: L_inv_def)
  have nodeX: "node \<in> {0..<int (length (st_X s3))}"
    using node(1) sh3 ids3 by (simp add: node_ids_def shaped_def)
  show ?thesis
  proof (rule L_inv_I)
    show "shaped s'" using sh3 by (simp add: shaped_def s' node_ids_def length_py_set)
    show "?P \<subseteq> node_ids s'" using PV3 by (simp add: ids' ids3)
    show "\<forall>u \<in> node_ids s'. py_get (st_pi s') u \<notin> ?P"
      using par3 by (simp add: ids' ids3) (simp add: s')
    have "counted_weight condition s' ?P v = counted_weight condition s3 ?P v"
      if "v \<in> node_ids s" for v
    proof (cases "v = node")
      case True
      then show ?thesis by (simp add: counted_weight_def)
    next
      case False
      from that sh3 ids3 have "v \<in> {0..<int (length (st_X s3))}"
        by (simp add: node_ids_def shaped_def)
      with False nodeX have "py_get (st_X s') v = py_get (st_X s3) v"
        by (simp add: s' py_get_set)
      then show ?thesis
        by (simp add: counted_weight_def branch_above_def) (simp add: s')
    qed
    then have "counted_branches condition s' ?P = counted_branches condition s3 ?P"
      unfolding counted_branches_def ids' ids3 by (intro sum_same) simp
    then show "st_L s' = counted_branches condition s' ?P" using L3 by (simp add: s')
  qed
qed


lemma in_child_L_sum:
  assumes inv: "L_sum condition s P" and c: "c \<in> node_ids s" "c \<notin> P"
    and det: "py_get (st_pi s) c = - 1" and node: "node \<in> node_ids s"
    and s1: "s1 = fst (in_child condition K node (s, dx) c)"
  shows "L_sum condition s1 P \<and> st_X s1 = st_X s \<and> st_node_time s1 = st_node_time s
       \<and> st_S s1 = st_S s \<and> node_ids s1 = node_ids s
       \<and> (\<forall>v \<in> node_ids s. py_get (st_pi s1) v = (if v = c then node else py_get (st_pi s) v))"
proof -
  from inv have sh: "shaped s" and PV: "P \<subseteq> node_ids s"
    and L: "st_L s = counted_branches condition s P"
    by (simp_all add: L_sum_def)
  have f1: "st_X s1 = st_X s" "st_node_time s1 = st_node_time s" "st_S s1 = st_S s"
    "st_pi s1 = py_set (st_pi s) c node"
    "st_L s1 = (if condition (py_get (st_X s) c)
                then st_L s + (py_get (st_node_time s) node - py_get (st_node_time s) c)
                else st_L s)"
    by (simp_all add: s1 in_child_def)
  have ids: "node_ids s1 = node_ids s" by (simp add: node_ids_def f1 length_py_set)
  have cpi: "c \<in> {0..<int (length (st_pi s))}" using c(1) by (simp add: node_ids_def)
  have pi1: "py_get (st_pi s1) v = (if v = c then node else py_get (st_pi s) v)"
    if "v \<in> node_ids s" for v
    using that cpi by (simp add: f1 py_get_set node_ids_def)
  have nn: "node \<noteq> - 1" using node by (auto simp: node_ids_def)
  have other: "counted_weight condition s1 P v = counted_weight condition s P v"
    if "v \<in> node_ids s" "v \<noteq> c" for v
    using that pi1 [OF that(1)] by (simp add: counted_weight_def branch_above_def f1(1,2))
  have w0: "counted_weight condition s P c = 0" using det by (simp add: counted_weight_def)
  have w1: "counted_weight condition s1 P c =
            (if condition (py_get (st_X s) c)
             then py_get (st_node_time s) node - py_get (st_node_time s) c else 0)"
    using pi1 [OF c(1)] c(2) nn by (simp add: counted_weight_def branch_above_def f1(1,2))
  have "counted_branches condition s1 P =
        counted_branches condition s P - counted_weight condition s P c
          + counted_weight condition s1 P c"
    unfolding counted_branches_def ids
    by (rule sum_point [OF finite_node_ids c(1)]) (use other in auto)
  then have "st_L s1 = counted_branches condition s1 P" using L w0 w1 by (simp add: f1(5))
  moreover have "shaped s1"
    using sh pi1 node unfolding shaped_def ids by (auto simp: f1 length_py_set)
  ultimately show ?thesis using PV pi1 by (simp add: L_sum_def ids f1(1,2,3))
qed

lemma in_children_L_sum:
  assumes "L_sum condition s P" and "distinct cs" and "node \<in> node_ids s"
    and "\<forall>c \<in> set cs. c \<in> node_ids s \<and> c \<notin> P \<and> py_get (st_pi s) c = - 1"
  shows "L_sum condition (fst (foldl (in_child condition K node) (s, dx) cs)) P
       \<and> st_X (fst (foldl (in_child condition K node) (s, dx) cs)) = st_X s
       \<and> st_node_time (fst (foldl (in_child condition K node) (s, dx) cs)) = st_node_time s
       \<and> st_S (fst (foldl (in_child condition K node) (s, dx) cs)) = st_S s
       \<and> node_ids (fst (foldl (in_child condition K node) (s, dx) cs)) = node_ids s
       \<and> (\<forall>v \<in> node_ids s. py_get (st_pi (fst (foldl (in_child condition K node) (s, dx) cs))) v
              = (if v \<in> set cs then node else py_get (st_pi s) v))"
  using assms
proof (induction cs arbitrary: s dx)
  case Nil
  then show ?case by simp
next
  case (Cons c cs)
  obtain s1 dx1 where step: "in_child condition K node (s, dx) c = (s1, dx1)"
    by (cases "in_child condition K node (s, dx) c")
  then have s1: "s1 = fst (in_child condition K node (s, dx) c)" by simp
  from Cons.prems have c: "c \<in> node_ids s" "c \<notin> P" "py_get (st_pi s) c = - 1" by simp_all
  from in_child_L_sum [OF Cons.prems(1) c Cons.prems(3) s1]
  have inv1: "L_sum condition s1 P" and f1: "st_X s1 = st_X s"
    "st_node_time s1 = st_node_time s" "st_S s1 = st_S s" and ids: "node_ids s1 = node_ids s"
    and pi1: "\<forall>v \<in> node_ids s. py_get (st_pi s1) v = (if v = c then node else py_get (st_pi s) v)"
    by simp_all
  have rest: "\<forall>c' \<in> set cs. c' \<in> node_ids s1 \<and> c' \<notin> P \<and> py_get (st_pi s1) c' = - 1"
    using Cons.prems(2,4) pi1 by (auto simp: ids)
  from Cons.prems(2) have d: "distinct cs" by simp
  have n1: "node \<in> node_ids s1" using Cons.prems(3) by (simp add: ids)
  note IH = Cons.IH [OF inv1 d n1 rest, of dx1]
  have fold: "foldl (in_child condition K node) (s, dx) (c # cs)
                = foldl (in_child condition K node) (s1, dx1) cs"
    by (simp add: step)
  have "py_get (st_pi (fst (foldl (in_child condition K node) (s1, dx1) cs))) v
          = (if v \<in> set (c # cs) then node else py_get (st_pi s) v)"
    if "v \<in> node_ids s" for v
  proof -
    from that have "v \<in> node_ids s1" by (simp add: ids)
    with IH have "py_get (st_pi (fst (foldl (in_child condition K node) (s1, dx1) cs))) v
          = (if v \<in> set cs then node else py_get (st_pi s1) v)" by blast
    then show ?thesis using pi1 that by (cases "v = c") simp_all
  qed
  then show ?case
    unfolding fold using IH by (simp add: f1 ids)
qed


lemma record_in_L_inv:
  assumes inv: "L_inv condition s P" and ok: "in_ok s P (node, children, time)"
    and run: "record_in condition K s (node, children, time) = Some (Inr s')"
  shows "L_inv condition s' (P - {node}) \<and> node_ids s' = node_ids s
       \<and> (\<forall>v \<in> node_ids s. py_get (st_pi s') v
              = (if v \<in> set children then node else py_get (st_pi s) v))"
proof -
  let ?P = "P - {node}"
  from ok have node: "node \<in> node_ids s" and att: "py_get (st_pi s) node \<noteq> - 1 \<longrightarrow> node \<in> P"
    and nochild: "\<forall>u \<in> node_ids s. py_get (st_pi s) u \<noteq> node" and dist: "distinct children"
    and ch: "\<forall>c \<in> set children. c \<in> node_ids s \<and> c \<notin> P \<and> py_get (st_pi s) c = - 1
                                  \<and> c \<noteq> node"
    by (simp_all add: in_ok_def)
  from inv have sh: "shaped s" and PV: "P \<subseteq> node_ids s"
    and par: "\<forall>u \<in> node_ids s. py_get (st_pi s) u \<notin> P"
    and L: "st_L s = counted_branches condition s P"
    by (simp_all add: L_inv_def)
  have nn: "node \<noteq> - 1" using node by (auto simp: node_ids_def)
  define dx0 :: "int list" where "dx0 = map (\<lambda>a. 0) [0..<K]"
  define s0 where "s0 = s\<lparr>st_node_time := py_set (st_node_time s) node time\<rparr>"
  obtain s1 dx where fold: "foldl (in_child condition K node) (s0, dx0) children = (s1, dx)"
    by (cases "foldl (in_child condition K node) (s0, dx0) children")
  define row where "row = map (\<lambda>k. dx ! k) [0..<K]"
  define s2 where "s2 = s1\<lparr>st_X := py_set (st_X s1) node row\<rparr>"
  define s3 where "s3 = (if py_get (st_pi s2) node \<noteq> - 1 \<and> condition (py_get (st_X s2) node)
                     then s2\<lparr>st_L := st_L s2 + branch_above s2 node\<rparr> else s2)"
  define u where "u = py_get (st_pi s3) node"
  have ids0: "node_ids s0 = node_ids s" by (simp add: s0_def node_ids_def)
  have f0: "st_pi s0 = st_pi s" "st_X s0 = st_X s" "st_L s0 = st_L s"
    "st_node_time s0 = py_set (st_node_time s) node time"
    by (simp_all add: s0_def)
  have nodent: "node \<in> {0..<int (length (st_node_time s))}"
    using node sh by (simp add: node_ids_def shaped_def)
  have inv0: "L_sum condition s0 P"
  proof -
    have "counted_weight condition s0 P v = counted_weight condition s P v"
      if v: "v \<in> node_ids s" for v
    proof (cases "v \<notin> P \<and> py_get (st_pi s) v \<noteq> - 1")
      case False
      then show ?thesis by (auto simp: counted_weight_def f0)
    next
      case True
      with att have vn: "v \<noteq> node" by blast
      from True v sh have pv: "py_get (st_pi s) v \<in> node_ids s" by (auto simp: shaped_def)
      from nochild v have pn: "py_get (st_pi s) v \<noteq> node" by blast
      have "v \<in> {0..<int (length (st_node_time s))}"
        "py_get (st_pi s) v \<in> {0..<int (length (st_node_time s))}"
        using v pv sh by (simp_all add: node_ids_def shaped_def)
      then have "branch_above s0 v = branch_above s v"
        using vn pn nodent by (simp add: branch_above_def f0 py_get_set)
      then show ?thesis by (simp add: counted_weight_def f0)
    qed
    then have "counted_branches condition s0 P = counted_branches condition s P"
      unfolding counted_branches_def ids0 by (intro sum_same) simp
    moreover have "shaped s0" using sh by (simp add: shaped_def f0 node_ids_def length_py_set)
    ultimately show ?thesis using L PV by (simp add: L_sum_def ids0 f0)
  qed
  have ch0: "\<forall>c \<in> set children. c \<in> node_ids s0 \<and> c \<notin> P \<and> py_get (st_pi s0) c = - 1"
    using ch by (simp add: ids0 f0)
  have n0: "node \<in> node_ids s0" using node by (simp add: ids0)
  from in_children_L_sum [OF inv0 dist n0 ch0, of K dx0] fold
  have inv1: "L_sum condition s1 P" and X1: "st_X s1 = st_X s"
    and ids1: "node_ids s1 = node_ids s"
    and pi1: "\<forall>v \<in> node_ids s. py_get (st_pi s1) v
                = (if v \<in> set children then node else py_get (st_pi s) v)"
    by (simp_all add: ids0 f0)
  from inv1 have sh1: "shaped s1" and L1: "st_L s1 = counted_branches condition s1 P"
    by (simp_all add: L_sum_def)
  have nodeX: "node \<in> {0..<int (length (st_X s1))}"
    using node sh1 ids1 by (simp add: node_ids_def shaped_def)
  have f2: "st_pi s2 = st_pi s1" "st_node_time s2 = st_node_time s1" "st_L s2 = st_L s1"
    by (simp_all add: s2_def)
  have ids2: "node_ids s2 = node_ids s" using ids1 by (simp add: node_ids_def f2)
  have nodepi: "py_get (st_pi s1) node = py_get (st_pi s) node"
    using pi1 node ch by auto
  have w2: "counted_weight condition s2 P v = counted_weight condition s1 P v"
    if v: "v \<in> node_ids s" for v
  proof (cases "v = node")
    case True
    then show ?thesis using att nodepi by (auto simp: counted_weight_def f2)
  next
    case False
    from v sh1 ids1 have "v \<in> {0..<int (length (st_X s1))}"
      by (simp add: node_ids_def shaped_def)
    with False nodeX have "py_get (st_X s2) v = py_get (st_X s1) v"
      by (simp add: s2_def py_get_set)
    then show ?thesis by (simp add: counted_weight_def branch_above_def f2)
  qed
  have L2: "st_L s2 = counted_branches condition s2 P"
  proof -
    have "counted_branches condition s2 P = counted_branches condition s1 P"
      unfolding counted_branches_def ids2 ids1 by (intro sum_same) (simp add: w2)
    then show ?thesis using L1 by (simp add: f2)
  qed
  have sh2: "shaped s2" using sh1 by (simp add: shaped_def f2 node_ids_def s2_def length_py_set)
  have f3: "st_pi s3 = st_pi s1" "st_X s3 = st_X s2" "st_node_time s3 = st_node_time s1"
    by (simp_all add: s3_def f2)
  have ids3: "node_ids s3 = node_ids s" using ids1 by (simp add: node_ids_def f3)
  have inv3: "L_inv condition s3 ?P"
  proof (rule L_inv_I)
    show "shaped s3" using sh2 by (simp add: shaped_def f3 f2 node_ids_def)
    show "?P \<subseteq> node_ids s3" using PV by (auto simp: ids3)
    show "\<forall>u \<in> node_ids s3. py_get (st_pi s3) u \<notin> ?P"
    proof
      fix v assume "v \<in> node_ids s3"
      then have v: "v \<in> node_ids s" by (simp add: ids3)
      show "py_get (st_pi s3) v \<notin> ?P"
        using pi1 v par by (cases "v \<in> set children") (auto simp: f3)
    qed
    have other: "counted_weight condition s3 ?P v = counted_weight condition s2 P v"
      if "v \<noteq> node" for v
      using that by (simp add: counted_weight_def branch_above_def f3 f2)
    have "counted_branches condition s3 ?P =
          counted_branches condition s2 P - counted_weight condition s2 P node
            + counted_weight condition s3 ?P node"
      unfolding counted_branches_def ids3 ids2
      by (rule sum_point [OF finite_node_ids node]) (use other in auto)
    moreover have "counted_weight condition s2 P node = 0"
      using att nodepi by (auto simp: counted_weight_def f2)
    moreover have "st_L s3 = st_L s2 + counted_weight condition s3 ?P node"
      by (simp add: s3_def counted_weight_def branch_above_def)
    ultimately show "st_L s3 = counted_branches condition s3 ?P" using L2 by simp
  qed
  have "record_in condition K s (node, children, time) =
          (if \<not> (py_index_ok (length (st_pi s)) node
                  \<and> list_all (py_index_ok (length (st_pi s))) children)
           then Some (Inl IndexError)
           else case (if u \<noteq> - 1 then in_while condition K dx s3 u (py_get (st_pi s3) u)
                      else Some s3) of
                  None \<Rightarrow> None | Some s4 \<Rightarrow> Some (Inr s4))"
    using fold by (simp add: record_in_def Let_def s0_def dx0_def s2_def s3_def u_def row_def)
  with run have
    loop: "(if u \<noteq> - 1 then in_while condition K dx s3 u (py_get (st_pi s3) u) else Some s3)
            = Some s'"
    by (simp split: if_splits option.splits)
  have post: "loop_post condition ?P s3 s'"
  proof (cases "u = - 1")
    case True
    with loop inv3 show ?thesis by (simp add: loop_post_refl)
  next
    case False
    have "u = - 1 \<or> (u \<in> node_ids s3 \<and> u \<notin> ?P)"
      unfolding u_def by (rule next_in_ids [OF inv3]) (simp add: ids3 node)
    moreover from loop False
    have "in_while condition K dx s3 u (py_get (st_pi s3) u) = Some s'" by simp
    ultimately show ?thesis
      using in_while_L_inv [of condition K dx s3 u "py_get (st_pi s3) u" s' ?P] inv3
      by simp
  qed
  then have "L_inv condition s' ?P" and pi': "st_pi s' = st_pi s3"
    by (simp_all add: loop_post_def)
  moreover have "node_ids s' = node_ids s" using ids3 by (simp add: node_ids_def pi')
  ultimately show ?thesis using pi1 by (simp add: pi' f3)
qed


lemma L_inv_drop:
  assumes "L_inv condition s P" and "\<forall>u \<in> P. py_get (st_pi s) u = - 1"
  shows "L_inv condition s {}"
proof (rule L_inv_I)
  from assms(1) show "shaped s" by (simp add: L_inv_def)
  show "{} \<subseteq> node_ids s" by simp
  show "\<forall>u \<in> node_ids s. py_get (st_pi s) u \<notin> {}" by simp
  have "counted_weight condition s {} v = counted_weight condition s P v" for v
    using assms(2) by (auto simp: counted_weight_def)
  then have "counted_branches condition s {} = counted_branches condition s P"
    by (simp add: counted_branches_def)
  with assms(1) show "st_L s = counted_branches condition s {}" by (simp add: L_inv_def)
qed

lemma outs_L_inv:
  "L_inv condition s P \<Longrightarrow> outs_ok condition K s P outs \<Longrightarrow>
   for_each (record_out condition K) outs s = Some (Inr s') \<Longrightarrow>
   L_inv condition s' (P \<union> fst ` set outs)"
proof (induction outs arbitrary: s P)
  case Nil
  then show ?case by simp
next
  case (Cons r outs)
  obtain node children time where r: "r = (node, children, time)" by (cases r)
  from Cons.prems(3) obtain s1 where
    one: "record_out condition K s (node, children, time) = Some (Inr s1)"
    and rest: "for_each (record_out condition K) outs s1 = Some (Inr s')"
    by (auto simp: r split: option.splits sum.splits)
  from Cons.prems(2) one have ok: "out_ok s P (node, children, time)"
    and oks: "outs_ok condition K s1 (insert node P) outs"
    by (simp_all add: r)
  have "L_inv condition s1 (insert node P)"
    by (rule record_out_L_inv [OF Cons.prems(1) ok one])
  from Cons.IH [OF this oks rest] show ?case by (simp add: r)
qed

lemma ins_L_inv:
  "L_inv condition s P \<Longrightarrow> ins_ok condition K s P ins \<Longrightarrow>
   for_each (record_in condition K) ins s = Some (Inr s') \<Longrightarrow>
   L_inv condition s' {}"
proof (induction ins arbitrary: s P)
  case Nil
  then show ?case by (auto intro: L_inv_drop)
next
  case (Cons r ins)
  obtain node children time where r: "r = (node, children, time)" by (cases r)
  from Cons.prems(3) obtain s1 where
    one: "record_in condition K s (node, children, time) = Some (Inr s1)"
    and rest: "for_each (record_in condition K) ins s1 = Some (Inr s')"
    by (auto simp: r split: option.splits sum.splits)
  from Cons.prems(2) one have ok: "in_ok s P (node, children, time)"
    and oks: "ins_ok condition K s1 (P - {node}) ins"
    by (simp_all add: r)
  from record_in_L_inv [OF Cons.prems(1) ok one]
  have "L_inv condition s1 (P - {node})" by simp
  from Cons.IH [OF this oks rest] show ?case .
qed

lemma diff_event_L_inv:
  assumes "L_inv condition s {}" and "event_ok condition K s d"
    and "diff_event condition K s d = Some (Inr s')"
  shows "L_inv condition s' {}"
proof -
  obtain len outs ins where d: "d = (len, outs, ins)" by (cases d)
  from assms(3) obtain s1 s2 where
    outs: "for_each (record_out condition K) outs s = Some (Inr s1)"
    and ins: "for_each (record_in condition K) ins s1 = Some (Inr s2)"
    and s': "s' = s2\<lparr>st_S := st_S s2 + st_L s2 * len\<rparr>"
    by (auto simp: d diff_event_def split: option.splits sum.splits)
  from assms(2) outs have ok1: "outs_ok condition K s {} outs"
    and ok2: "ins_ok condition K s1 (fst ` set outs) ins"
    by (simp_all add: d event_ok_def)
  from outs_L_inv [OF assms(1) ok1 outs]
  have "L_inv condition s1 (fst ` set outs)" by simp
  from ins_L_inv [OF this ok2 ins] have inv2: "L_inv condition s2 {}" .
  have "counted_weight condition s' {} v = counted_weight condition s2 {} v" for v
    by (simp add: counted_weight_def branch_above_def s')
  then have "counted_branches condition s' {} = counted_branches condition s2 {}"
    by (simp add: counted_branches_def node_ids_def s')
  with inv2 show ?thesis
    by (simp add: L_inv_def shaped_def node_ids_def s')
qed

lemma stream_L_inv:
  "L_inv condition s {} \<Longrightarrow> stream_ok condition K s ds \<Longrightarrow>
   for_each (diff_event condition K) ds s = Some (Inr s') \<Longrightarrow> L_inv condition s' {}"
proof (induction ds arbitrary: s)
  case Nil
  then show ?case by simp
next
  case (Cons d ds)
  from Cons.prems(3) obtain s1 where
    one: "diff_event condition K s d = Some (Inr s1)"
    and rest: "for_each (diff_event condition K) ds s1 = Some (Inr s')"
    by (auto split: option.splits sum.splits)
  from Cons.prems(2) one have ok: "event_ok condition K s d"
    and oks: "stream_ok condition K s1 ds" by simp_all
  have "L_inv condition s1 {}" by (rule diff_event_L_inv [OF Cons.prems(1) ok one])
  from Cons.IH [OF this oks rest] show ?case .
qed

lemma init_state_L_inv: "L_inv condition (init_state N leaf_sets) {}"
proof (rule L_inv_I)
  have pi: "py_get (st_pi (init_state N leaf_sets)) u = - 1"
    if "u \<in> node_ids (init_state N leaf_sets)" for u
  proof -
    from that have "0 \<le> u" "u < int N" by (simp_all add: init_state_def node_ids_def)
    then have "nat u < N" "0 \<le> u" by linarith+
    then show ?thesis by (simp add: init_state_def py_get_def py_pos_def)
  qed
  then show "shaped (init_state N leaf_sets)"
    by (simp add: shaped_def) (simp add: init_state_def)
  show "{} \<subseteq> node_ids (init_state N leaf_sets)" by simp
  show "\<forall>u \<in> node_ids (init_state N leaf_sets). py_get (st_pi (init_state N leaf_sets)) u \<notin> {}"
    by simp
  have "counted_branches condition (init_state N leaf_sets) {} = 0"
    unfolding counted_branches_def
    by (rule sum.neutral) (simp add: counted_weight_def pi)
  then show "st_L (init_state N leaf_sets) = counted_branches condition (init_state N leaf_sets) {}"
    by (simp add: init_state_def)
qed


text \<open>
  The running total after any well-formed stream. The times are those of \<open>node_time\<close>:
  the time of a record for its parent, and the initial 0 for every node that never was
  the parent of a record.
\<close>

theorem branch_stats_L_tracks:
  assumes "stream_ok condition K (init_state N leaf_sets) ds"
    and "for_each (diff_event condition K) ds (init_state N leaf_sets) = Some (Inr s)"
  shows "st_L s = (\<Sum>u \<in> node_ids s.
                    if py_get (st_pi s) u \<noteq> - 1 \<and> condition (py_get (st_X s) u)
                    then py_get (st_node_time s) (py_get (st_pi s) u) - py_get (st_node_time s) u
                    else 0)"
proof -
  from stream_L_inv [OF init_state_L_inv assms]
  have "st_L s = counted_branches condition s {}" by (simp add: L_inv_def)
  also have "\<dots> = (\<Sum>u \<in> node_ids s.
                    if py_get (st_pi s) u \<noteq> - 1 \<and> condition (py_get (st_X s) u)
                    then py_get (st_node_time s) (py_get (st_pi s) u) - py_get (st_node_time s) u
                    else 0)"
    unfolding counted_branches_def
    by (rule sum.cong) (simp_all add: counted_weight_def branch_above_def)
  finally show ?thesis .
qed

lemma ids5: "{0..<(5::int)} = {0, 1, 2, 3, 4}"
  by auto

lemma ex_stream_ok:
  "stream_ok (\<lambda>x. x = [1, 0]) (length [[0, 1], [2 :: int]]) (init_state 5 [[0, 1], [2]])
     (diffs ex_ts)"
  by (simp add: ex_ts_def event_ok_def in_ok_def node_ids_def init_state_def ids5
      record_in_def in_child_def branch_above_def py_get_def py_set_def py_pos_def
      py_index_ok_def Let_def flip_L_def in_while.simps diff_event_def eval_nat_numeral)

lemma ex_diffs2_ok:
  "stream_ok (\<lambda>x. x = [1, 0]) (length [[0, 1], [2 :: int]]) (init_state 5 [[0, 1], [2]])
     ex_diffs2"
  by (simp add: ex_diffs2_def event_ok_def in_ok_def out_ok_def node_ids_def init_state_def
      ids5 record_in_def record_out_def in_child_def out_child_def branch_above_def py_get_def
      py_set_def py_pos_def py_index_ok_def Let_def flip_L_def in_while.simps out_while.simps
      diff_event_def eval_nat_numeral insert_Diff_if)

end
